theory Spec2Isabelle
  imports Main "HOL-Library.Word"
begin

unbundle bit_operations_syntax

section \<open>Script number serialization (src/script/int_serialization.h)\<close>

text \<open>
  The header is embedded with \<open>T = int64_t\<close>. A \<open>uint8_t\<close> is an 8-bit word, and
  both \<open>int64_t\<close> and \<open>uint64_t\<close> are 64-bit words: two's complement, with arithmetic
  that wraps modulo \<open>2 ^ 64\<close>; the sign of an \<open>int64_t\<close> is read with \<open><s\<close>. A byte
  range \<open>[f, l)\<close> and a \<open>std::vector<uint8_t>\<close> are byte lists, \<open>size_t\<close> is \<open>nat\<close>.
  A left shift loses the bits it moves beyond bit 63.
  The \<open>assert(f != l)\<close> of the decoders is the result \<open>None\<close>.
\<close>

type_synonym byte = "8 word"
type_synonym int64 = "64 word"
type_synonym uint64 = "64 word"

subsection \<open>\<open>bsv::abs\<close>\<close>

definition bsv_abs :: "int64 \<Rightarrow> uint64" where
  "bsv_abs v = (let neg = v <s 0 in if neg then - v else v)"

subsection \<open>\<open>bsv::serialize\<close>\<close>

text \<open>
  The output iterator is the sink it appends to: the list of bytes written so far.
  \<open>*o = x; ++o\<close> appends the byte \<open>x\<close> (the conversion to \<open>uint8_t\<close> is \<open>ucast\<close>).
\<close>

function serialize_loop :: "bool \<Rightarrow> uint64 \<Rightarrow> byte list \<Rightarrow> byte list" where
  "serialize_loop neg absvalue out =
     (if absvalue \<noteq> 0 then
        (let tmp = absvalue AND 0xff;
             absvalue' = drop_bit 8 absvalue
         in if absvalue' \<noteq> 0 then
              serialize_loop neg absvalue' (out @ [ucast tmp])
            else if tmp AND 0x80 \<noteq> 0 then
              serialize_loop neg absvalue'
                (out @ [ucast tmp] @ [if neg then 0x80 else 0])
            else
              serialize_loop neg absvalue'
                (out @ [if neg then ucast (tmp OR 0x80) else ucast tmp]))
      else out)"
  by pat_completeness auto

termination
proof (relation "measure (\<lambda>(neg, a, out). unat a)")
  have less: "unat (drop_bit 8 a) < unat a" if "a \<noteq> 0" for a :: uint64
  proof -
    from that have "0 < unat a"
      by (simp add: unat_gt_0)
    then have "unat a div 2 ^ 8 < unat a"
      by simp
    then show ?thesis
      by (simp add: drop_bit_eq_div unat_div)
  qed
  fix neg :: bool and absvalue x xa :: uint64 and out :: "byte list"
  assume "absvalue \<noteq> 0" and "xa = drop_bit 8 absvalue"
  then show "((neg, xa, out @ [ucast x]), neg, absvalue, out)
      \<in> measure (\<lambda>(neg, a, out). unat a)"
    by (simp add: less)
  from \<open>absvalue \<noteq> 0\<close> \<open>xa = drop_bit 8 absvalue\<close>
  show "((neg, xa, out @ [ucast x] @ [if neg then 0x80 else 0]), neg, absvalue, out)
      \<in> measure (\<lambda>(neg, a, out). unat a)"
    by (simp add: less)
  from \<open>absvalue \<noteq> 0\<close> \<open>xa = drop_bit 8 absvalue\<close>
  show "((neg, xa, out @ [if neg then ucast (x OR 0x80) else ucast x]), neg, absvalue, out)
      \<in> measure (\<lambda>(neg, a, out). unat a)"
    by (simp add: less)
qed simp

declare serialize_loop.simps [simp del]

definition serialize :: "int64 \<Rightarrow> byte list \<Rightarrow> byte list" where
  "serialize v out =
     (if v = 0 then out
      else let neg = v <s 0; absvalue = bsv_abs v
           in serialize_loop neg absvalue out)"

subsection \<open>Shifts by a computed count\<close>

text \<open>
  \<open>tmp <<= (8 * i)\<close> on an \<open>int64_t\<close>. C++ defines the shift for a count below 64 only.
  For a larger count the compiled code for x86-64 uses the count modulo 64 (the shift
  instruction reads the low six bits of its count), and the model follows it: the
  forward decoder gets there on 9 or more bytes, the random-access decoder on 10 or
  more. The bidirectional decoder only ever shifts by 8.
\<close>

definition shift_left :: "int64 \<Rightarrow> nat \<Rightarrow> int64" where
  "shift_left x k = push_bit (k mod 64) x"

subsection \<open>\<open>bsv::deserialize\<close>, forward iterators\<close>

text \<open>The list is the range \<open>[f, l)\<close> still to read; \<open>next(f) == l\<close> is \<open>bs = []\<close>.\<close>

fun deserialize_forward_loop :: "byte list \<Rightarrow> nat \<Rightarrow> int64 \<Rightarrow> int64" where
  "deserialize_forward_loop [] i result = result"
| "deserialize_forward_loop (b # bs) i result =
     (let tmp = (ucast b :: int64)
      in if bs = [] \<and> b AND 0x80 \<noteq> 0 then
           (let tmp = tmp AND 0x7f;
                tmp = shift_left tmp (8 * i);
                result = result OR tmp
            in - result)
         else
           (let tmp = shift_left tmp (8 * i);
                result = result OR tmp
            in deserialize_forward_loop bs (i + 1) result))"

definition deserialize_forward :: "byte list \<Rightarrow> int64 option" where
  "deserialize_forward bs =
     (if bs = [] then None else Some (deserialize_forward_loop bs 0 0))"

subsection \<open>\<open>bsv::deserialize\<close>, bidirectional iterators\<close>

text \<open>
  The list is the range \<open>[f, l)\<close>; \<open>l = prev(l)\<close> drops its last byte, which \<open>*l\<close>
  then reads. The \<open>do ... while(f != l)\<close> loop runs its body before the test.
\<close>

function deserialize_bidirectional_loop :: "byte list \<Rightarrow> int64 \<Rightarrow> int64" where
  "deserialize_bidirectional_loop bs result =
     (let l = butlast bs;
          result = push_bit 8 result;
          result = result OR ucast (last bs)
      in if l \<noteq> [] then deserialize_bidirectional_loop l result else result)"
  by pat_completeness auto

termination
  apply (relation "measure (\<lambda>(bs, r). length bs)")
   apply simp
  apply (case_tac bs)
   apply auto
  done

declare deserialize_bidirectional_loop.simps [simp del]

definition deserialize_bidirectional :: "byte list \<Rightarrow> int64 option" where
  "deserialize_bidirectional bs =
     (if bs = [] then None
      else
        (let l = butlast bs;
             result = (ucast (last bs) :: int64);
             negative = (last bs AND 0x80 \<noteq> 0);
             result = (if negative then result AND 0x7f else result)
         in if l = [] then Some (if negative then - result else result)
            else
              (let result = deserialize_bidirectional_loop l result
               in Some (if negative then - result else result))))"

subsection \<open>\<open>bsv::deserialize\<close>, random-access iterators\<close>

text \<open>The iterator \<open>f\<close> advances with \<open>i\<close>, so \<open>*f\<close> is \<open>bs ! i\<close>; \<open>sizeof(T)\<close> is 8.\<close>

function deserialize_random_access_loop ::
    "byte list \<Rightarrow> nat \<Rightarrow> nat \<Rightarrow> int64 \<Rightarrow> int64" where
  "deserialize_random_access_loop bs d i result =
     (if i < d - 1 then
        (let tmp = (ucast (bs ! i) :: int64);
             tmp = shift_left tmp (8 * i);
             result = result OR tmp
         in deserialize_random_access_loop bs d (i + 1) result)
      else result)"
  by pat_completeness auto

termination
  by (relation "measure (\<lambda>(bs, d, i, r). d - 1 - i)") auto

declare deserialize_random_access_loop.simps [simp del]

definition deserialize_random_access :: "byte list \<Rightarrow> int64 option" where
  "deserialize_random_access bs =
     (if bs = [] then None
      else
        (let d = length bs;
             result = deserialize_random_access_loop bs d 0 0
         in if d > 8 then Some result
            else
              (let tmp = (ucast (bs ! (d - 1)) :: int64);
                   negative = (tmp AND 0x80 \<noteq> 0);
                   tmp = (if negative then tmp AND 0x7f else tmp);
                   tmp = shift_left tmp (8 * (d - 1));
                   result = result OR tmp
               in Some (if negative then - result else result))))"

subsection \<open>\<open>bsv::IsMinimallyEncoded\<close>\<close>

definition IsMinimallyEncoded :: "byte list \<Rightarrow> nat \<Rightarrow> bool" where
  "IsMinimallyEncoded vch nMaxNumSize =
     (if length vch > nMaxNumSize then False
      else if length vch > 0 then
        (if last vch AND 0x7f = 0 then
           (if length vch \<le> 1 \<or> vch ! (length vch - 2) AND 0x80 = 0 then False
            else True)
         else True)
      else True)"

subsection \<open>\<open>bsv::MinimallyEncode\<close>\<close>

text \<open>
  \<open>std::vector::resize\<close>: truncates, or pads with zero bytes. The function returns its
  boolean together with the buffer as it leaves it.
\<close>

definition resize :: "byte list \<Rightarrow> nat \<Rightarrow> byte list" where
  "resize data n = take n data @ replicate (n - length data) 0"

text \<open>The \<open>for\<close> loop, counting \<open>i\<close> down to 1; falling out of it empties the buffer.\<close>

fun MinimallyEncode_loop :: "byte list \<Rightarrow> byte \<Rightarrow> nat \<Rightarrow> bool \<times> byte list" where
  "MinimallyEncode_loop data lst 0 = (True, [])"
| "MinimallyEncode_loop data lst (Suc j) =
     (if data ! j \<noteq> 0 then
        (if data ! j AND 0x80 \<noteq> 0 then
           (True, resize (data[Suc j := lst]) (Suc (Suc j)))
         else
           (True, resize (data[j := data ! j OR lst]) (Suc j)))
      else MinimallyEncode_loop data lst j)"

definition MinimallyEncode :: "byte list \<Rightarrow> bool \<times> byte list" where
  "MinimallyEncode data =
     (if length data = 0 then (False, data)
      else
        (let lst = last data
         in if lst AND 0x7f \<noteq> 0 then (False, data)
            else if length data = 1 then (True, [])
            else if data ! (length data - 2) AND 0x80 \<noteq> 0 then (False, data)
            else MinimallyEncode_loop data lst (length data - 1)))"

section \<open>Reference notions for the properties\<close>

text \<open>
  The number of base-256 digits of a magnitude: the bytes that \<open>serialize\<close> needs for
  it, not counting an extra sign byte.
\<close>

fun byte_width :: "nat \<Rightarrow> nat" where
  "byte_width n = (if n = 0 then 0 else Suc (byte_width (n div 256)))"

declare byte_width.simps [simp del]

text \<open>
  The little-endian value of magnitude bytes, with \<open>hi\<close> placed above them, in 64-bit
  arithmetic; and the same value of all the bytes as a natural number, without a width.
\<close>

fun le_value :: "byte list \<Rightarrow> int64 \<Rightarrow> int64" where
  "le_value [] hi = hi"
| "le_value (b # bs) hi = ucast b OR push_bit 8 (le_value bs hi)"

fun le_nat :: "byte list \<Rightarrow> nat" where
  "le_nat [] = 0"
| "le_nat (b # bs) = unat b + 256 * le_nat bs"

text \<open>
  The integer that a non-empty encoding denotes (section 3 of the specification): the
  last byte gives the sign flag and the top seven bits of the magnitude.
\<close>

definition decoded :: "byte list \<Rightarrow> int64" where
  "decoded bs =
     (let m = le_value (butlast bs) (ucast (last bs AND 0x7f))
      in if last bs AND 0x80 \<noteq> 0 then - m else m)"

text \<open>A non-empty encoding without a redundant last byte.\<close>

definition minimal_shape :: "byte list \<Rightarrow> bool" where
  "minimal_shape c \<longleftrightarrow> c \<noteq> [] \<and>
     (last c AND 0x7f \<noteq> 0 \<or> (2 \<le> length c \<and> c ! (length c - 2) AND 0x80 \<noteq> 0))"

section \<open>The minimality checker\<close>

text \<open>
  C3: \<open>IsMinimallyEncoded\<close> returns false exactly when the vector is longer than
  \<open>nMaxNumSize\<close>, or it is non-empty, the low seven bits of its last byte are all
  clear, and it has at most one byte or the \<open>0x80\<close> bit of its second-to-last byte is
  clear. In every other case it returns true: the empty vector is accepted under every
  limit, and the lone byte \<open>0x80\<close> (negative zero) is rejected under every limit.
\<close>

theorem IsMinimallyEncoded_rejects:
  "(\<not> IsMinimallyEncoded vch nMaxNumSize) =
     (nMaxNumSize < length vch \<or>
      (0 < length vch \<and> last vch AND 0x7f = 0 \<and>
       (length vch \<le> 1 \<or> vch ! (length vch - 2) AND 0x80 = 0)))
   \<and> IsMinimallyEncoded [] nMaxNumSize
   \<and> \<not> IsMinimallyEncoded [0x80] nMaxNumSize"
  by (simp add: IsMinimallyEncoded_def)

text \<open>
  C9 as stated: \<open>IsMinimallyEncoded([0xff, 0x00], 4)\<close> is false and
  \<open>IsMinimallyEncoded([0xff, 0x80], 4)\<close> is true. The first half fails: the
  second-to-last byte \<open>0xff\<close> has its \<open>0x80\<close> bit set, so the trailing \<open>0x00\<close> is the
  sign byte that +255 needs.
\<close>

theorem IsMinimallyEncoded_255_claimed_false:
  "\<not> (IsMinimallyEncoded [0xff, 0x00] 4 = False \<and> IsMinimallyEncoded [0xff, 0x80] 4 = True)"
  by (simp add: IsMinimallyEncoded_def)

text \<open>
  C9 amended: both \<open>IsMinimallyEncoded([0xff, 0x00], 4)\<close> and
  \<open>IsMinimallyEncoded([0xff, 0x80], 4)\<close> are true (the encodings of +255 and -255).
\<close>

theorem IsMinimallyEncoded_255:
  "IsMinimallyEncoded [0xff, 0x00] 4 \<and> IsMinimallyEncoded [0xff, 0x80] 4"
  by (simp add: IsMinimallyEncoded_def)

section \<open>The rewriter changes the buffer exactly when it says so\<close>

lemma length_resize: "length (resize data n) = n"
  by (simp add: resize_def)

lemma MinimallyEncode_loop_fst: "fst (MinimallyEncode_loop data lst i) = True"
  by (induction i) simp_all

lemma MinimallyEncode_loop_length:
  "length (snd (MinimallyEncode_loop data lst i)) \<le> Suc i"
  by (induction i) (simp_all add: length_resize)

text \<open>
  When the byte below \<open>i\<close> has its sign bit clear, the first iteration cannot take the
  branch that writes one more byte, so the buffer ends shorter than \<open>i + 1\<close>.
\<close>

lemma MinimallyEncode_loop_shrinks:
  assumes "0 < i" and "data ! (i - 1) AND 0x80 = 0"
  shows "length (snd (MinimallyEncode_loop data lst i)) \<le> i"
proof (cases i)
  case 0
  with assms show ?thesis by simp
next
  case (Suc j)
  with assms MinimallyEncode_loop_length [of data lst j] show ?thesis
    by (simp add: length_resize)
qed

text \<open>
  C8: \<open>MinimallyEncode\<close> returns true if and only if the buffer it leaves differs from
  the one it was given. It returns false exactly on the empty input, on a last byte
  with one of its low seven bits set, and on a trailing sign byte that the \<open>0x80\<close> bit
  of the second-to-last byte requires; then the buffer is unchanged.
\<close>

theorem MinimallyEncode_changed:
  "fst (MinimallyEncode data) = (snd (MinimallyEncode data) \<noteq> data)
   \<and> (\<not> fst (MinimallyEncode data)) =
       (data = [] \<or> last data AND 0x7f \<noteq> 0 \<or>
        (2 \<le> length data \<and> data ! (length data - 2) AND 0x80 \<noteq> 0))
   \<and> (\<not> fst (MinimallyEncode data) \<longrightarrow> snd (MinimallyEncode data) = data)"
proof -
  have loop: "fst (MinimallyEncode_loop data (last data) (length data - 1)) \<and>
      snd (MinimallyEncode_loop data (last data) (length data - 1)) \<noteq> data"
    if "2 \<le> length data" and "data ! (length data - 2) AND 0x80 = 0"
  proof -
    from that have "0 < length data - 1" and "data ! (length data - 1 - 1) AND 0x80 = 0"
      by (simp_all add: numeral_2_eq_2)
    then have "length (snd (MinimallyEncode_loop data (last data) (length data - 1)))
        \<le> length data - 1"
      by (rule MinimallyEncode_loop_shrinks)
    with that have "length (snd (MinimallyEncode_loop data (last data) (length data - 1)))
        \<noteq> length data"
      by simp
    then show ?thesis
      by (auto simp: MinimallyEncode_loop_fst)
  qed
  have len: "data = [] \<or> length data = 1 \<or> 2 \<le> length data"
    by (cases data) (auto simp: Suc_le_eq)
  show ?thesis
  proof (cases "2 \<le> length data \<and> last data AND 0x7f = 0
            \<and> data ! (length data - 2) AND 0x80 = 0")
    case True
    with loop show ?thesis
      by (auto simp: MinimallyEncode_def Let_def)
  next
    case False
    with len show ?thesis
      by (auto simp: MinimallyEncode_def Let_def)
  qed
qed

theorem MinimallyEncode_changed_witness:
  "\<not> fst (MinimallyEncode [0xff, 0x00]) \<and> snd (MinimallyEncode [0xff, 0x00]) = [0xff, 0x00]
   \<and> fst (MinimallyEncode [0x05, 0x00]) \<and> snd (MinimallyEncode [0x05, 0x00]) = [0x05]"
  using MinimallyEncode_changed [of "[0xff, 0x00]"] MinimallyEncode_changed [of "[0x05, 0x00]"]
  by (simp add: MinimallyEncode_def resize_def)

section \<open>Bytes and bits\<close>

lemma numeral_0xff_mask: "(0xff :: 'a::len word) = mask 8"
  by (simp add: mask_eq_exp_minus_1)

lemma numeral_0x80_exp: "(0x80 :: 'a::len word) = 2 ^ 7"
  by simp

lemma and_0x80_iff: "(w AND 0x80 \<noteq> 0) = bit (w :: 'a::len word) 7"
  unfolding numeral_0x80_exp using and_exp_eq_0_iff_not_bit [of w 7] by simp

lemma split_low_byte:
  "ucast (ucast (a AND 0xff :: int64) :: byte) OR push_bit 8 (drop_bit 8 a) = (a :: int64)"
  unfolding numeral_0xff_mask
proof (rule bit_word_eqI)
  fix n :: nat
  assume "n < LENGTH(64)"
  show "bit (ucast (ucast (a AND mask 8) :: byte) OR push_bit 8 (drop_bit 8 a)) n = bit a n"
  proof (cases "n < 8")
    case True
    then show ?thesis by (auto simp: bit_simps)
  next
    case False
    then have "8 + (n - 8) = n" by simp
    with False \<open>n < LENGTH(64)\<close> show ?thesis by (auto simp: bit_simps)
  qed
qed

section \<open>The encoder loop, one byte at a time\<close>

lemma unat_drop_bit_8_less: "a \<noteq> 0 \<Longrightarrow> unat (drop_bit 8 a) < unat (a :: int64)"
proof -
  assume "a \<noteq> 0"
  then have "0 < unat a"
    by (simp add: unat_gt_0)
  then have "unat a div 2 ^ 8 < unat a"
    by simp
  then show ?thesis
    by (simp add: drop_bit_eq_div unat_div)
qed

lemma serialize_loop_0: "serialize_loop neg 0 out = out"
  by (subst serialize_loop.simps) simp

lemma serialize_loop_append: "serialize_loop neg a out = out @ serialize_loop neg a []"
proof (induction "unat a" arbitrary: a out rule: less_induct)
  case less
  show ?case
  proof (cases "a = 0")
    case True
    then show ?thesis by (simp add: serialize_loop_0)
  next
    case False
    then have IH: "serialize_loop neg (drop_bit 8 a) out' = out' @ serialize_loop neg (drop_bit 8 a) []"
      for out'
      by (intro less) (rule unat_drop_bit_8_less)
    show ?thesis
      by (subst (1 2) serialize_loop.simps) (simp add: Let_def IH [of "_ @ _"] IH [of "[_]"] serialize_loop_0)
  qed
qed

lemma serialize_loop_more:
  "a \<noteq> 0 \<Longrightarrow> drop_bit 8 a \<noteq> 0 \<Longrightarrow>
   serialize_loop neg a [] = ucast (a AND 0xff) # serialize_loop neg (drop_bit 8 a) []"
  by (subst serialize_loop.simps, subst serialize_loop_append) (simp add: Let_def)

lemma serialize_loop_last_high:
  "a \<noteq> 0 \<Longrightarrow> drop_bit 8 a = 0 \<Longrightarrow> (a AND 0xff) AND 0x80 \<noteq> 0 \<Longrightarrow>
   serialize_loop neg a [] = [ucast (a AND 0xff), if neg then 0x80 else 0]"
  by (subst serialize_loop.simps) (simp add: Let_def serialize_loop_0)

lemma serialize_loop_last_low:
  "a \<noteq> 0 \<Longrightarrow> drop_bit 8 a = 0 \<Longrightarrow> (a AND 0xff) AND 0x80 = 0 \<Longrightarrow>
   serialize_loop neg a [] = [if neg then ucast ((a AND 0xff) OR 0x80) else ucast (a AND 0xff)]"
  by (subst serialize_loop.simps) (simp add: Let_def serialize_loop_0)

lemma serialize_eq_loop: "serialize v out = out @ serialize_loop (v <s 0) (bsv_abs v) []"
  by (cases "v = 0")
    (simp_all add: serialize_def bsv_abs_def Let_def serialize_loop_0 serialize_loop_append [symmetric])

subsection \<open>Masks on bytes\<close>

lemma bit_0x80: "bit (0x80 :: int) n = (n = 7)"
  using bit_exp_iff [where ?'a = int and m = 7 and n = n] by auto

lemma bit_0x7f: "bit (0x7f :: int) n = (n < 7)"
  using bit_mask_iff [where ?'a = int and m = 7 and n = n] by (simp add: mask_eq_exp_minus_1)

lemma bit_0xff: "bit (0xff :: int) n = (n < 8)"
  using bit_mask_iff [where ?'a = int and m = 8 and n = n] by (simp add: mask_eq_exp_minus_1)

lemmas byte_bits = bit_0x80 bit_0x7f bit_0xff bit_and_iff bit_or_iff bit_ucast_iff

lemma ucast_and_0xff: "(ucast (a AND 0xff :: int64) :: byte) = ucast a"
  by (rule bit_word_eqI) (auto simp: byte_bits)

lemma and_0xff_and_0x80: "((a AND 0xff) AND 0x80 = 0) = ((ucast (a :: int64) :: byte) AND 0x80 = 0)"
  using and_0x80_iff [of "a AND 0xff"] and_0x80_iff [of "ucast a :: byte"]
  by (auto simp: byte_bits)

lemma ucast_and_0xff_or_0x80: "(ucast ((a AND 0xff) OR 0x80 :: int64) :: byte) = ucast a OR 0x80"
  by (rule bit_word_eqI) (auto simp: byte_bits)

lemma low_byte_drop_bit: "ucast (ucast a :: byte) OR push_bit 8 (drop_bit 8 a) = (a :: int64)"
  using split_low_byte [of a] by (simp add: ucast_and_0xff)

lemma ucast_ucast_low: "drop_bit 8 a = 0 \<Longrightarrow> ucast (ucast a :: byte) = (a :: int64)"
  using low_byte_drop_bit [of a] by simp

lemma or_0x80_and_0x7f: "(b OR 0x80) AND 0x7f = b AND (0x7f :: byte)"
  by (rule bit_word_eqI) (auto simp: byte_bits)

lemma and_0x7f_id: "b AND 0x80 = 0 \<Longrightarrow> b AND 0x7f = (b :: byte)"
proof (rule bit_word_eqI)
  fix n :: nat
  assume "b AND 0x80 = 0" and "n < LENGTH(8)"
  then have "\<not> bit b 7" and "n < 7 \<or> n = 7"
    using and_0x80_iff [of b] by auto
  then show "bit (b AND 0x7f) n = bit b n"
    by (auto simp: byte_bits)
qed

lemma or_0x80_and_0x80: "(b OR 0x80) AND 0x80 \<noteq> (0 :: byte)"
  unfolding and_0x80_iff by (simp add: byte_bits)

lemma ucast_and_0x7f: "ucast (b AND 0x7f :: byte) = (ucast b AND 0x7f :: int64)"
  by (rule bit_word_eqI) (auto simp: byte_bits)

lemma ucast_and_0x80: "(ucast (b :: byte) AND (0x80 :: int64) \<noteq> 0) = (b AND 0x80 \<noteq> 0)"
  unfolding and_0x80_iff by (simp add: byte_bits)

subsection \<open>The loop on an empty sink, and induction along it\<close>

lemma serialize_loop_unfold:
  "a \<noteq> 0 \<Longrightarrow> serialize_loop neg a [] =
     (let b = (ucast a :: byte)
      in if drop_bit 8 a \<noteq> 0 then b # serialize_loop neg (drop_bit 8 a) []
         else if b AND 0x80 \<noteq> 0 then [b, if neg then 0x80 else 0]
         else [if neg then b OR 0x80 else b])"
  using serialize_loop_more [of a neg] serialize_loop_last_high [of a neg]
    serialize_loop_last_low [of a neg]
  by (simp add: ucast_and_0xff and_0xff_and_0x80 ucast_and_0xff_or_0x80 Let_def)

lemma serialize_loop_induct [consumes 1, case_names more last]:
  assumes "a \<noteq> 0"
    and more: "\<And>a. a \<noteq> 0 \<Longrightarrow> drop_bit 8 a \<noteq> 0 \<Longrightarrow> P (drop_bit 8 a) \<Longrightarrow> P a"
    and last: "\<And>a. a \<noteq> 0 \<Longrightarrow> drop_bit 8 a = 0 \<Longrightarrow> P a"
  shows "P (a :: int64)"
  using \<open>a \<noteq> 0\<close>
proof (induction "unat a" arbitrary: a rule: less_induct)
  case less
  show ?case
  proof (cases "drop_bit 8 a = 0")
    case True
    with less.prems show ?thesis by (rule last)
  next
    case False
    from less.prems have "unat (drop_bit 8 a) < unat a"
      by (rule unat_drop_bit_8_less)
    then have "P (drop_bit 8 a)"
      using False by (rule less.hyps)
    with less.prems False show ?thesis by (rule more)
  qed
qed

section \<open>The encoder emits minimal encodings\<close>

lemma low_byte_nonzero: "a \<noteq> 0 \<Longrightarrow> drop_bit 8 a = 0 \<Longrightarrow> (ucast (a :: int64) :: byte) \<noteq> 0"
  using ucast_ucast_low [of a] by auto

lemma minimal_shape_Cons:
  "minimal_shape c \<Longrightarrow> minimal_shape (b # c)"
proof -
  assume c: "minimal_shape c"
  have "(b # c) ! (length (b # c) - 2) = c ! (length c - 2)" if "2 \<le> length c"
  proof -
    from that have "length (b # c) - 2 = Suc (length c - 2)"
      by simp
    then show ?thesis
      by simp
  qed
  with c show ?thesis
    by (auto simp: minimal_shape_def)
qed

lemma serialize_loop_minimal_shape:
  "a \<noteq> 0 \<Longrightarrow> minimal_shape (serialize_loop neg a [])"
proof (induction a rule: serialize_loop_induct)
  case (more a)
  then show ?case
    by (simp add: serialize_loop_unfold minimal_shape_Cons)
next
  case (last a)
  then have "(ucast a :: byte) \<noteq> 0"
    by (rule low_byte_nonzero)
  with last show ?case
    by (auto simp: serialize_loop_unfold Let_def minimal_shape_def or_0x80_and_0x7f and_0x7f_id)
qed

lemma IsMinimallyEncoded_shape:
  "IsMinimallyEncoded c n = (length c \<le> n \<and> (c = [] \<or> minimal_shape c))"
proof -
  have "(length c \<le> 1) = (\<not> 2 \<le> length c)" and "(0 < length c) = (c \<noteq> [])"
    by auto
  then show ?thesis
    unfolding IsMinimallyEncoded_def minimal_shape_def by auto
qed

text \<open>
  C4: for every \<open>n\<close> the bytes that \<open>serialize\<close> emits are minimal:
  \<open>IsMinimallyEncoded\<close> accepts them under every \<open>nMaxNumSize\<close> that is at least their
  number. A last byte whose low seven bits are all clear (a trailing \<open>0x00\<close> or \<open>0x80\<close>)
  is only emitted after a byte that has its \<open>0x80\<close> bit set.
\<close>

theorem serialize_minimal:
  "(length (serialize n []) \<le> nMaxNumSize \<longrightarrow>
      IsMinimallyEncoded (serialize n []) nMaxNumSize)
   \<and> (serialize n [] \<noteq> [] \<and> last (serialize n []) AND 0x7f = 0 \<longrightarrow>
      2 \<le> length (serialize n []) \<and>
      serialize n [] ! (length (serialize n []) - 2) AND 0x80 \<noteq> 0)"
proof (cases "n = 0")
  case True
  then show ?thesis by (simp add: serialize_def IsMinimallyEncoded_def)
next
  case False
  then have "bsv_abs n \<noteq> 0"
    by (simp add: bsv_abs_def)
  then have "minimal_shape (serialize_loop (n <s 0) (bsv_abs n) [])"
    by (rule serialize_loop_minimal_shape)
  then have "minimal_shape (serialize n [])"
    by (simp add: serialize_eq_loop)
  then show ?thesis
    by (auto simp: IsMinimallyEncoded_shape) (auto simp: minimal_shape_def)
qed

theorem serialize_minimal_witness:
  "serialize 255 [] = [0xff, 0x00] \<and> IsMinimallyEncoded (serialize 255 []) 2"
  using serialize_minimal [of 255 2]
  by (simp add: serialize_def bsv_abs_def serialize_loop.simps word_sless_alt)

section \<open>The number of bytes written\<close>

lemma byte_width_0: "byte_width 0 = 0"
  by (simp add: byte_width.simps)

lemma byte_width_pos: "0 < n \<Longrightarrow> byte_width n = Suc (byte_width (n div 256))"
  by (subst byte_width.simps) simp

lemma byte_width_upper: "n < 256 ^ byte_width n"
proof (induction n rule: byte_width.induct)
  case (1 n)
  show ?case
  proof (cases "n = 0")
    case True
    then show ?thesis by (simp add: byte_width_0)
  next
    case False
    with "1" have "n div 256 < 256 ^ byte_width (n div 256)"
      by simp
    then have "n < 256 * 256 ^ byte_width (n div 256)"
      by (simp add: div_less_iff_less_mult)
    with False show ?thesis
      by (simp add: byte_width_pos)
  qed
qed

lemma byte_width_lower: "0 < n \<Longrightarrow> 256 ^ (byte_width n - 1) \<le> n"
proof (induction n rule: byte_width.induct)
  case (1 n)
  show ?case
  proof (cases "n div 256 = 0")
    case True
    with "1.prems" show ?thesis
      by (simp add: byte_width_pos byte_width_0)
  next
    case False
    with "1" have "256 ^ (byte_width (n div 256) - 1) \<le> n div 256"
      by simp
    then have "256 * 256 ^ (byte_width (n div 256) - 1) \<le> n"
      by simp
    moreover from False have "byte_width (n div 256) = Suc (byte_width (n div 256) - 1)"
      by (simp add: byte_width_pos)
    then have "(256 :: nat) ^ byte_width (n div 256) = 256 * 256 ^ (byte_width (n div 256) - 1)"
      by (metis power_Suc)
    ultimately have "256 ^ byte_width (n div 256) \<le> n"
      by simp
    then show ?thesis
      using "1.prems" by (simp add: byte_width_pos)
  qed
qed

lemma unat_drop_bit_8: "unat (drop_bit 8 a) = unat (a :: int64) div 256"
  by (simp add: drop_bit_eq_div unat_div)

lemma byte_width_le_8: "byte_width (unat (a :: int64)) \<le> 8"
proof (rule ccontr)
  assume "\<not> byte_width (unat a) \<le> 8"
  then have "9 \<le> byte_width (unat a)" and "0 < unat a"
    by (auto simp: byte_width_0 intro: Suc_leI gr0I)
  then have "(256 :: nat) ^ 8 \<le> 256 ^ (byte_width (unat a) - 1)"
    by (intro power_increasing) auto
  also have "\<dots> \<le> unat a"
    using \<open>0 < unat a\<close> by (rule byte_width_lower)
  finally show False
    using unsigned_less [of a, where ?'a = nat] by simp
qed

lemma serialize_loop_length:
  "a \<noteq> 0 \<Longrightarrow> length (serialize_loop neg a []) =
     byte_width (unat a) + (if bit a (8 * byte_width (unat a) - 1) then 1 else 0)"
proof (induction a rule: serialize_loop_induct)
  case (more a)
  then have pos: "0 < unat a" "0 < unat (drop_bit 8 a)"
    by (simp_all add: unat_gt_0)
  then have w: "byte_width (unat a) = Suc (byte_width (unat (drop_bit 8 a)))"
    and w': "0 < byte_width (unat (drop_bit 8 a))"
    by (simp_all add: byte_width_pos unat_drop_bit_8)
  then have "8 * byte_width (unat a) - 1 = 8 + (8 * byte_width (unat (drop_bit 8 a)) - 1)"
    by simp
  then have "bit a (8 * byte_width (unat a) - 1)
      = bit (drop_bit 8 a) (8 * byte_width (unat (drop_bit 8 a)) - 1)"
    by (simp add: bit_drop_bit_eq)
  with more w show ?case
    by (simp add: serialize_loop_unfold)
next
  case (last a)
  then have "0 < unat a" and "unat a div 256 = 0"
    using unat_drop_bit_8 [of a] by (simp_all add: unat_gt_0)
  then have "byte_width (unat a) = 1"
    by (simp add: byte_width_pos byte_width_0)
  moreover have "((ucast a :: byte) AND 0x80 \<noteq> 0) = bit a 7"
    unfolding and_0x80_iff by (simp add: bit_simps)
  ultimately show ?case
    using last by (simp add: serialize_loop_unfold Let_def)
qed

text \<open>\<open>bsv::abs\<close> returns the magnitude of its argument, \<open>2 ^ 63\<close> for \<open>INT64_MIN\<close>.\<close>

lemma unat_bsv_abs: "unat (bsv_abs n) = nat \<bar>sint n\<bar>"
proof -
  have lo: "- (2 ^ 63) \<le> sint n" and hi: "sint n < 2 ^ 63"
    using sint_greater_eq [of n] sint_lt [of n] by simp_all
  have "uint (bsv_abs n) = \<bar>sint n\<bar>"
  proof (cases "n <s 0")
    case True
    then have neg: "sint n < 0"
      by (simp add: word_sless_alt)
    have "uint (- n) = (- uint n) mod 2 ^ 64"
      by (simp add: uint_word_ariths)
    also have "\<dots> = (- (sint n mod 2 ^ 64)) mod 2 ^ 64"
      by (simp add: uint_sint take_bit_eq_mod)
    also have "\<dots> = (- sint n) mod 2 ^ 64"
      by (simp add: mod_minus_eq)
    also have "\<dots> = - sint n"
      using neg lo by simp
    finally show ?thesis
      using True neg by (simp add: bsv_abs_def)
  next
    case False
    then have nonneg: "0 \<le> sint n"
      by (simp add: word_sless_alt)
    have "uint n = sint n mod 2 ^ 64"
      by (simp add: uint_sint take_bit_eq_mod)
    also have "\<dots> = sint n"
      using nonneg hi by simp
    finally show ?thesis
      using False nonneg by (simp add: bsv_abs_def)
  qed
  then show ?thesis
    by (simp add: unat_eq_nat_uint)
qed

text \<open>
  C10: \<open>serialize\<close> appends at most \<open>sizeof(int64_t) + 1 = 9\<close> bytes to the sink, and
  leaves what the sink held: one byte for every base-256 digit of the magnitude \<open>|n|\<close>,
  which is what \<open>bsv::abs\<close> computes, and one more, the sign byte, exactly when the top
  digit has its \<open>0x80\<close> bit set.
\<close>

theorem serialize_length:
  "length (serialize n out) - length out \<le> 9 \<and>
   serialize n out = out @ serialize n [] \<and>
   unat (bsv_abs n) = nat \<bar>sint n\<bar> \<and>
   length (serialize n []) =
     byte_width (nat \<bar>sint n\<bar>) +
     (if bit (nat \<bar>sint n\<bar>) (8 * byte_width (nat \<bar>sint n\<bar>) - 1) then 1 else 0)"
proof -
  have loop: "length (serialize n []) =
     byte_width (unat (bsv_abs n)) +
     (if bit (bsv_abs n) (8 * byte_width (unat (bsv_abs n)) - 1) then 1 else 0)"
  proof (cases "n = 0")
    case True
    then show ?thesis
      by (simp add: serialize_def bsv_abs_def byte_width_0)
  next
    case False
    then have "bsv_abs n \<noteq> 0"
      by (simp add: bsv_abs_def)
    then show ?thesis
      by (simp add: serialize_eq_loop serialize_loop_length)
  qed
  have "bit (bsv_abs n) j = bit (unat (bsv_abs n)) j" for j
    by (simp add: bit_unsigned_iff)
  with loop have len: "length (serialize n []) =
     byte_width (nat \<bar>sint n\<bar>) +
     (if bit (nat \<bar>sint n\<bar>) (8 * byte_width (nat \<bar>sint n\<bar>) - 1) then 1 else 0)"
    by (simp only: unat_bsv_abs)
  have app: "serialize n out = out @ serialize n []"
    using serialize_eq_loop [of n out] serialize_eq_loop [of n "[]"] by simp
  from loop byte_width_le_8 [of "bsv_abs n"] have "length (serialize n []) \<le> 9"
    by (simp split: if_splits)
  with app have "length (serialize n out) - length out \<le> 9"
    by (metis add_diff_cancel_left' length_append)
  with len app unat_bsv_abs [of n] show ?thesis
    by blast
qed

theorem serialize_length_witness:
  "serialize (- 1) [] = [0x81] \<and> byte_width (nat \<bar>sint (- 1 :: int64)\<bar>) = 1
   \<and> serialize (- 255) [] = [0xff, 0x80] \<and> byte_width (nat \<bar>sint (- 255 :: int64)\<bar>) = 1
   \<and> serialize (- 0x8000000000000000) [] = [0, 0, 0, 0, 0, 0, 0, 0x80, 0x80]"
  using serialize_length [of "- 1" "[]"] serialize_length [of "- 255" "[]"]
  by (simp add: serialize_def bsv_abs_def serialize_loop.simps byte_width.simps word_sless_alt)

section \<open>What the decoders compute\<close>

lemma le_value_snoc: "le_value (bs @ [b]) hi = le_value bs (ucast b OR push_bit 8 hi)"
  by (induction bs) simp_all

lemma le_value_append: "le_value (xs @ ys) hi = le_value xs (le_value ys hi)"
  by (induction xs) simp_all

lemma le_value_split: "le_value bs hi = le_value bs 0 OR push_bit (8 * length bs) hi"
proof (induction bs)
  case Nil
  show ?case by simp
next
  case (Cons b bs)
  have "push_bit 8 (le_value bs hi)
      = push_bit 8 (le_value bs 0) OR push_bit (8 + 8 * length bs) hi"
    by (subst Cons.IH) (simp add: push_bit_or push_bit_push_bit add.commute flip: push_bit_add)
  then show ?case
    by (simp add: or.assoc)
qed

lemma deserialize_bidirectional_loop_value:
  "bs \<noteq> [] \<Longrightarrow> deserialize_bidirectional_loop bs result = le_value bs result"
proof (induction bs arbitrary: result rule: rev_induct)
  case Nil
  then show ?case by simp
next
  case (snoc b bs)
  show ?case
  proof (cases "bs = []")
    case True
    then show ?thesis
      by (subst deserialize_bidirectional_loop.simps) (simp add: or.commute)
  next
    case False
    then show ?thesis
      by (subst deserialize_bidirectional_loop.simps)
        (simp add: snoc.IH le_value_snoc or.commute)
  qed
qed

lemma top_byte: "b AND 0x80 = 0 \<Longrightarrow> (ucast b AND 0x7f :: int64) = ucast (b :: byte)"
  using ucast_and_0x7f [of b] by (simp add: and_0x7f_id)

lemma deserialize_bidirectional_value:
  "bs \<noteq> [] \<Longrightarrow> deserialize_bidirectional bs = Some (decoded bs)"
  by (cases "butlast bs = []")
    (simp_all add: deserialize_bidirectional_def decoded_def Let_def
      deserialize_bidirectional_loop_value ucast_and_0x7f top_byte)

lemma shift_left_push_bit: "k < 64 \<Longrightarrow> shift_left x k = push_bit k x"
  by (simp add: shift_left_def)

lemma deserialize_forward_loop_value:
  "bs \<noteq> [] \<Longrightarrow> i + length bs \<le> 8 \<Longrightarrow> deserialize_forward_loop bs i result =
     (let m = result OR push_bit (8 * i) (le_value (butlast bs) (ucast (last bs AND 0x7f)))
      in if last bs AND 0x80 \<noteq> 0 then - m else m)"
proof (induction bs arbitrary: i result)
  case Nil
  then show ?case by simp
next
  case (Cons b bs)
  from Cons.prems have count: "8 * i < 64"
    by simp
  show ?case
  proof (cases "bs = []")
    case True
    then show ?thesis
      by (simp add: Let_def ucast_and_0x7f top_byte shift_left_push_bit [OF count]
          del: push_bit_and)
  next
    case False
    have "push_bit (8 * i) (ucast b) OR push_bit (8 * (i + 1)) x
        = push_bit (8 * i) (ucast b OR push_bit 8 x)" for x :: "int64"
      by (simp add: push_bit_or push_bit_push_bit add.commute flip: push_bit_add)
    moreover from Cons.prems have "i + 1 + length bs \<le> 8"
      by simp
    ultimately show ?thesis
      using False
      by (simp add: Cons.IH Let_def or.assoc shift_left_push_bit [OF count]
          del: push_bit_and)
  qed
qed

lemma deserialize_forward_value:
  "bs \<noteq> [] \<Longrightarrow> length bs \<le> 8 \<Longrightarrow> deserialize_forward bs = Some (decoded bs)"
  by (simp add: deserialize_forward_def deserialize_forward_loop_value decoded_def Let_def)

lemma deserialize_random_access_loop_value:
  "d - 1 \<le> length bs \<Longrightarrow> d - 1 \<le> 8 \<Longrightarrow>
   deserialize_random_access_loop bs d i result =
     result OR push_bit (8 * i) (le_value (drop i (take (d - 1) bs)) 0)"
proof (induction bs d i result rule: deserialize_random_access_loop.induct)
  case (1 bs d i result)
  show ?case
  proof (cases "i < d - 1")
    case True
    with "1.prems" have "i < length (take (d - 1) bs)"
      by simp
    then have "drop i (take (d - 1) bs)
        = take (d - 1) bs ! i # drop (Suc i) (take (d - 1) bs)"
      by (rule Cons_nth_drop_Suc [symmetric])
    with True have "drop i (take (d - 1) bs) = bs ! i # drop (i + 1) (take (d - 1) bs)"
      by simp
    moreover have "push_bit (8 * i) (ucast (bs ! i)) OR push_bit (8 * (i + 1)) x
        = push_bit (8 * i) (ucast (bs ! i) OR push_bit 8 x)" for x :: "int64"
      by (simp add: push_bit_or push_bit_push_bit add.commute flip: push_bit_add)
    moreover from True "1.prems" have "8 * i < 64"
      by simp
    ultimately show ?thesis
      using True "1.IH" [OF True refl refl refl "1.prems"]
      by (subst deserialize_random_access_loop.simps)
        (simp add: Let_def or.assoc shift_left_push_bit)
  next
    case False
    then show ?thesis
      by (subst deserialize_random_access_loop.simps) simp
  qed
qed

lemma deserialize_random_access_long:
  "length bs = 9 \<Longrightarrow> deserialize_random_access bs = Some (le_value (butlast bs) 0)"
  by (auto simp: deserialize_random_access_def Let_def deserialize_random_access_loop_value
      butlast_conv_take)

lemma deserialize_random_access_value:
  assumes "bs \<noteq> []" and "length bs \<le> 8"
  shows "deserialize_random_access bs = Some (decoded bs)"
proof -
  have "le_value (butlast bs) 0 OR push_bit (8 * (length bs - 1)) x = le_value (butlast bs) x"
    for x
    using le_value_split [of "butlast bs" x] by simp
  moreover have "take (length bs - Suc 0) bs = butlast bs"
    by (simp add: butlast_conv_take)
  moreover from assms have "8 * (length bs - Suc 0) < 64"
    by simp
  ultimately show ?thesis
    using assms
    by (simp add: deserialize_random_access_def Let_def deserialize_random_access_loop_value
        decoded_def ucast_and_0x7f ucast_and_0x80 top_byte last_conv_nth shift_left_push_bit
        del: push_bit_and)
qed

lemma le_value_le_nat: "le_value bs 0 = word_of_nat (le_nat bs)"
proof (induction bs)
  case Nil
  show ?case by simp
next
  case (Cons b bs)
  have "(ucast b :: int64) AND push_bit 8 (le_value bs 0) = 0"
    by (rule bit_word_eqI) (auto simp: bit_simps dest: bit_imp_le_length)
  then have "ucast b OR push_bit 8 (le_value bs 0) = (ucast b :: int64) + push_bit 8 (le_value bs 0)"
    by (simp add: disjunctive_add_eq_or)
  then show ?case
    by (simp add: Cons.IH push_bit_eq_mult)
qed

lemma le_nat_bound: "le_nat bs < 256 ^ length bs"
proof (induction bs)
  case Nil
  show ?case by simp
next
  case (Cons b bs)
  have "unat b < 256"
    using unsigned_less [of b, where ?'a = nat] by simp
  moreover from Cons have "le_nat bs + 1 \<le> 256 ^ length bs"
    by simp
  then have "256 * (le_nat bs + 1) \<le> 256 * 256 ^ length bs"
    by (rule mult_le_mono2)
  ultimately show ?case
    by simp
qed

lemma le_nat_append: "le_nat (xs @ ys) = le_nat xs + 256 ^ length xs * le_nat ys"
  by (induction xs) (simp_all add: algebra_simps)

text \<open>
  C6 as stated: the three decoders return the same integer on every non-empty sequence.
  On nine bytes the random-access decoder returns before it reads the sign, where the
  bidirectional one negates.
\<close>

theorem decoders_differ:
  "deserialize_bidirectional [1, 0, 0, 0, 0, 0, 0, 0, 0x80] = Some (- 1)
   \<and> deserialize_random_access [1, 0, 0, 0, 0, 0, 0, 0, 0x80] = Some 1"
  by (simp add: deserialize_bidirectional_value deserialize_random_access_long decoded_def)

text \<open>
  C6 amended: on every non-empty sequence of at most \<open>sizeof(int64_t) = 8\<close> bytes the
  forward, the bidirectional and the random-access decoder return the same integer.
\<close>

theorem decoders_agree:
  "bs \<noteq> [] \<Longrightarrow> length bs \<le> 8 \<Longrightarrow>
   deserialize_forward bs = deserialize_bidirectional bs \<and>
   deserialize_random_access bs = deserialize_bidirectional bs"
  by (simp add: deserialize_forward_value deserialize_bidirectional_value
      deserialize_random_access_value)

theorem decoders_agree_witness:
  "deserialize_forward [0xff, 0x80] = Some (- 255) \<and>
   deserialize_bidirectional [0xff, 0x80] = Some (- 255) \<and>
   deserialize_random_access [0xff, 0x80] = Some (- 255)"
  using decoders_agree [of "[0xff, 0x80]"]
  by (simp add: deserialize_forward_def shift_left_def)

text \<open>
  C7 as stated: on every sequence of more than \<open>sizeof(int64_t) = 8\<close> bytes the
  random-access decoder returns the value of all bytes but the last, where a byte whose
  shift exceeds the width adds nothing. On ten bytes the loop shifts the byte at index 8
  by 64, and that byte lands in the low bits of the result.
\<close>

theorem deserialize_random_access_ten_bytes:
  "deserialize_random_access [0, 0, 0, 0, 0, 0, 0, 0, 5, 0] = Some 5
   \<and> le_nat (butlast [0, 0, 0, 0, 0, 0, 0, 0, 5, 0]) mod 2 ^ 64 = 0
   \<and> le_nat (take 8 [0, 0, 0, 0, 0, 0, 0, 0, 5, 0]) = 0"
  by (simp add: deserialize_random_access_def deserialize_random_access_loop.simps
      shift_left_def Let_def)

text \<open>
  C7 amended: on a sequence of \<open>sizeof(int64_t) + 1 = 9\<close> bytes, the length that the
  guard \<open>d > sizeof(T)\<close> is written for, the random-access decoder returns the
  little-endian value of the first eight bytes as an unsigned 64-bit number; neither
  the sign flag nor the low bits of the last byte are used.
\<close>

theorem deserialize_random_access_oversized:
  "length bs = 9 \<Longrightarrow>
   deserialize_random_access bs = Some (word_of_nat (le_nat (butlast bs))) \<and>
   unat (word_of_nat (le_nat (butlast bs)) :: int64) = le_nat (butlast bs) \<and>
   butlast bs = take 8 bs"
proof -
  assume len: "length bs = 9"
  then have "le_nat (butlast bs) < 256 ^ 8"
    using le_nat_bound [of "butlast bs"] by simp
  then have "le_nat (butlast bs) mod 2 ^ 64 = le_nat (butlast bs)"
    by simp
  moreover from len have "butlast bs = take 8 bs"
    by (simp add: butlast_conv_take)
  ultimately show ?thesis
    using len by (simp add: deserialize_random_access_long le_value_le_nat unat_of_nat)
qed

theorem deserialize_random_access_oversized_witness:
  "deserialize_random_access [1, 2, 0, 0, 0, 0, 0, 0, 0x81] = Some 513"
  using deserialize_random_access_oversized [of "[1, 2, 0, 0, 0, 0, 0, 0, 0x81]"]
  by simp

section \<open>Decoding what was encoded\<close>

lemma serialize_loop_nonempty: "a \<noteq> 0 \<Longrightarrow> serialize_loop neg a [] \<noteq> []"
  using serialize_loop_minimal_shape [of a neg] by (simp add: minimal_shape_def)

lemma serialize_loop_decoded:
  "a \<noteq> 0 \<Longrightarrow>
   le_value (butlast (serialize_loop neg a [])) (ucast (last (serialize_loop neg a []) AND 0x7f)) = a
   \<and> (last (serialize_loop neg a []) AND 0x80 \<noteq> 0) = neg"
proof (induction a rule: serialize_loop_induct)
  case (more a)
  then have "serialize_loop neg (drop_bit 8 a) [] \<noteq> []"
    by (intro serialize_loop_nonempty)
  with more show ?case
    by (simp add: serialize_loop_unfold low_byte_drop_bit)
next
  case (last a)
  then have "ucast (ucast a :: byte) = a"
    by (intro ucast_ucast_low)
  with last show ?case
    using or_0x80_and_0x80 [of "ucast a"]
    by (simp add: serialize_loop_unfold Let_def or_0x80_and_0x7f and_0x7f_id)
qed

text \<open>
  C1: \<open>serialize\<close> emits nothing for 0, the empty sequence that callers read as 0
  (\<open>deserialize\<close> asserts a non-empty range); for every other signed 64-bit \<open>n\<close>,
  deserializing the bytes that \<open>serialize n\<close> emits gives \<open>n\<close> back.
\<close>

theorem deserialize_serialize:
  "serialize 0 [] = [] \<and> (n \<noteq> 0 \<longrightarrow> deserialize_bidirectional (serialize n []) = Some n)"
proof (intro conjI impI)
  show "serialize 0 [] = []"
    by (simp add: serialize_def)
next
  assume "n \<noteq> 0"
  then have a: "bsv_abs n \<noteq> 0"
    by (simp add: bsv_abs_def)
  have n: "(if n <s 0 then - bsv_abs n else bsv_abs n) = n"
    by (simp add: bsv_abs_def)
  from a have "decoded (serialize_loop (n <s 0) (bsv_abs n) []) = n"
    using serialize_loop_decoded [OF a, of "n <s 0"] n
    by (simp add: decoded_def Let_def)
  with a show "deserialize_bidirectional (serialize n []) = Some n"
    by (simp add: serialize_eq_loop deserialize_bidirectional_value serialize_loop_nonempty)
qed

theorem deserialize_serialize_witness:
  "deserialize_bidirectional (serialize (- 255) []) = Some (- 255)"
  using deserialize_serialize [of "- 255"] by simp

section \<open>Encoding what was decoded\<close>

lemma le_value_high_bits:
  "(\<And>n. k \<le> n \<Longrightarrow> \<not> bit hi n) \<Longrightarrow> 8 * length bs + k \<le> n \<Longrightarrow> \<not> bit (le_value bs hi) n"
proof (induction bs arbitrary: n)
  case Nil
  then show ?case by simp
next
  case (Cons b bs)
  from Cons.prems have "8 * length bs + k \<le> n - 8" and "8 \<le> n"
    by simp_all
  with Cons.IH [of "n - 8"] Cons.prems(1) have "\<not> bit (le_value bs hi) (n - 8)"
    by blast
  with \<open>8 \<le> n\<close> show ?case
    by (auto simp: bit_simps dest: bit_imp_le_length)
qed

lemma top_bits: "7 \<le> n \<Longrightarrow> \<not> bit (ucast (b AND 0x7f :: byte) :: int64) n"
  by (auto simp: byte_bits)

lemma magnitude_high_bits:
  "8 * length bs + 7 \<le> n \<Longrightarrow> \<not> bit (le_value bs (ucast (b AND 0x7f :: byte))) n"
  using le_value_high_bits [of 7 "ucast (b AND 0x7f)" bs n] top_bits [of _ b] by blast

lemma low_byte_Cons: "(ucast (ucast b OR push_bit 8 v :: int64) :: byte) = b"
  by (rule bit_word_eqI) (auto simp: bit_simps)

lemma drop_bit_Cons:
  assumes "\<And>n. 56 \<le> n \<Longrightarrow> \<not> bit v n"
  shows "drop_bit 8 (ucast (b :: byte) OR push_bit 8 v :: int64) = v"
proof (rule bit_word_eqI)
  fix n :: nat
  assume "n < LENGTH(64)"
  show "bit (drop_bit 8 (ucast b OR push_bit 8 v)) n = bit v n"
  proof (cases "n < 56")
    case True
    then show ?thesis
      by (auto simp: bit_simps dest: bit_imp_le_length)
  next
    case False
    with assms [of n] show ?thesis
      by (auto simp: bit_simps dest: bit_imp_le_length)
  qed
qed

lemma ucast_byte_eq_0: "((ucast (b :: byte) :: int64) = 0) = (b = 0)"
  by (metis low_byte_Cons push_bit_of_0 or.right_neutral ucast_0)

lemma minimal_shape_ConsD:
  assumes "minimal_shape (b # c)" and "c \<noteq> []"
  shows "minimal_shape c \<or> (\<exists>s. c = [s] \<and> s AND 0x7f = 0 \<and> b AND 0x80 \<noteq> 0)"
proof (cases "2 \<le> length c")
  case True
  then have "length (b # c) - 2 = Suc (length c - 2)"
    by simp
  then have "(b # c) ! (length (b # c) - 2) = c ! (length c - 2)"
    by simp
  with assms True show ?thesis
    by (auto simp: minimal_shape_def)
next
  case False
  with \<open>c \<noteq> []\<close> obtain s where "c = [s]"
    by (cases c) (auto simp: Suc_le_eq numeral_2_eq_2)
  with assms show ?thesis
    by (auto simp: minimal_shape_def)
qed

lemma drop_bit_ucast_byte: "drop_bit 8 (ucast (t :: byte) :: int64) = 0"
  by (rule bit_word_eqI) (auto simp: bit_simps dest: bit_imp_le_length)

lemma ucast_ucast_byte: "(ucast (ucast (t :: byte) :: int64) :: byte) = t"
  using low_byte_Cons [of t 0] by simp

lemma and_0x7f_and_0x80: "(b AND 0x7f) AND 0x80 = (0 :: byte)"
  by (rule bit_word_eqI) (auto simp: byte_bits)

lemma serialize_loop_byte_low:
  assumes "t \<noteq> 0" and "t AND 0x80 = 0"
  shows "serialize_loop neg (ucast (t :: byte)) [] = [if neg then t OR 0x80 else t]"
proof -
  from assms have "(ucast t :: int64) \<noteq> 0"
    by (simp add: ucast_byte_eq_0)
  then show ?thesis
    using assms by (simp add: serialize_loop_unfold drop_bit_ucast_byte ucast_ucast_byte)
qed

lemma serialize_loop_byte_high:
  assumes "b AND 0x80 \<noteq> 0"
  shows "serialize_loop neg (ucast (b :: byte)) [] = [b, if neg then 0x80 else 0]"
proof -
  from assms have "b \<noteq> 0"
    by auto
  then have "(ucast b :: int64) \<noteq> 0"
    by (simp add: ucast_byte_eq_0)
  then show ?thesis
    using assms by (simp add: serialize_loop_unfold drop_bit_ucast_byte ucast_ucast_byte)
qed

lemma serialize_loop_magnitude:
  "minimal_shape c \<Longrightarrow> length c \<le> 8 \<Longrightarrow>
   le_value (butlast c) (ucast (last c AND 0x7f)) \<noteq> 0 \<and>
   serialize_loop neg (le_value (butlast c) (ucast (last c AND 0x7f))) []
     = butlast c @ [(last c AND 0x7f) OR (if neg then 0x80 else 0)]"
proof (induction c)
  case Nil
  then show ?case by (simp add: minimal_shape_def)
next
  case (Cons b c)
  show ?case
  proof (cases "c = []")
    case True
    with Cons.prems have "b AND 0x7f \<noteq> 0"
      by (simp add: minimal_shape_def)
    with True show ?thesis
      using serialize_loop_byte_low [of "b AND 0x7f" neg]
      by (simp add: and_0x7f_and_0x80 ucast_byte_eq_0)
  next
    case False
    define m where "m = le_value (butlast c) (ucast (last c AND 0x7f))"
    have "\<not> bit m n" if "56 \<le> n" for n
    proof -
      from Cons.prems have "8 * length (butlast c) + 7 \<le> 56"
        using False by simp
      with that show ?thesis
        unfolding m_def by (intro magnitude_high_bits) simp
    qed
    then have "drop_bit 8 (ucast b OR push_bit 8 m) = m"
      by (rule drop_bit_Cons)
    define M where "M = ucast b OR push_bit 8 m"
    have drop: "drop_bit 8 M = m"
      unfolding M_def by fact
    have low: "ucast M = b"
      unfolding M_def by (rule low_byte_Cons)
    from False have val: "le_value (butlast (b # c)) (ucast (last (b # c) AND 0x7f)) = M"
      by (simp add: M_def m_def)
    from Cons.prems(1) False
    consider "minimal_shape c" | s where "c = [s]" "s AND 0x7f = 0" "b AND 0x80 \<noteq> 0"
      using minimal_shape_ConsD by blast
    then show ?thesis
    proof cases
      case 1
      with Cons have IH: "m \<noteq> 0"
        "serialize_loop neg m [] = butlast c @ [(last c AND 0x7f) OR (if neg then 0x80 else 0)]"
        by (simp_all add: m_def)
      from IH(1) drop have nz: "M \<noteq> 0"
        by (metis drop_bit_of_0)
      have "serialize_loop neg M [] = b # serialize_loop neg m []"
        using IH(1) by (simp add: serialize_loop_unfold [OF nz] drop low)
      with False IH(2) nz show ?thesis
        unfolding val by simp
    next
      case 2
      then show ?thesis
        using serialize_loop_byte_high [of b neg]
        by (auto simp: ucast_byte_eq_0)
    qed
  qed
qed

lemma sign_of_magnitude:
  assumes "m \<noteq> 0" and "\<not> bit (m :: int64) 63"
  shows "- m <s 0" and "\<not> m <s 0"
proof -
  from assms(2) have nonneg: "0 \<le> sint m"
    using bit_last_iff [of m] by simp
  moreover from assms(1) have "sint m \<noteq> 0"
    by (simp add: signed_eq_0_iff)
  ultimately have pos: "0 < sint m"
    by simp
  have "sint m < 2 ^ 63"
    using sint_less [of m] by simp
  with pos have "signed_take_bit 63 (- sint m) = - sint m"
    by (intro signed_take_bit_int_eq_self) simp_all
  then have "sint (- m) = - sint m"
    by (simp add: sint_word_minus)
  with pos show "- m <s 0"
    by (simp add: word_sless_alt)
  from nonneg show "\<not> m <s 0"
    by (simp add: word_sless_alt)
qed

lemma bsv_abs_magnitude:
  assumes "m \<noteq> 0" and "\<not> bit (m :: int64) 63"
  shows "bsv_abs (- m) = m" and "bsv_abs m = m"
  using sign_of_magnitude [OF assms] by (simp_all add: bsv_abs_def)

lemma split_sign_bit: "(b AND 0x7f) OR (if b AND 0x80 \<noteq> 0 then 0x80 else 0) = (b :: byte)"
proof (rule bit_word_eqI)
  fix n :: nat
  assume "n < LENGTH(8)"
  then have "n < 7 \<or> n = 7"
    by auto
  then show "bit ((b AND 0x7f) OR (if b AND 0x80 \<noteq> 0 then 0x80 else 0)) n = bit b n"
    using and_0x80_iff [of b] by (auto simp: byte_bits)
qed

lemma serialize_decoded:
  assumes "minimal_shape c" and "length c \<le> 8"
  shows "serialize (decoded c) [] = c"
proof -
  define m where "m = le_value (butlast c) (ucast (last c AND 0x7f))"
  define neg where "neg = (last c AND 0x80 \<noteq> 0)"
  from assms have "m \<noteq> 0"
    and loop: "serialize_loop neg m [] = butlast c @ [(last c AND 0x7f) OR (if neg then 0x80 else 0)]"
    using serialize_loop_magnitude [of c neg] by (simp_all add: m_def)
  from assms have "c \<noteq> []"
    by (simp add: minimal_shape_def)
  from this assms(2) have "8 * length (butlast c) + 7 \<le> 63"
    by simp
  then have "\<not> bit m 63"
    unfolding m_def by (rule magnitude_high_bits)
  with \<open>m \<noteq> 0\<close> have "- m <s 0" "\<not> m <s 0" "bsv_abs (- m) = m" "bsv_abs m = m"
    by (simp_all add: sign_of_magnitude bsv_abs_magnitude)
  then have "serialize (decoded c) [] = serialize_loop neg m []"
    by (simp add: serialize_eq_loop decoded_def Let_def flip: m_def neg_def)
  moreover have "(last c AND 0x7f) OR (if neg then 0x80 else 0) = last c"
    unfolding neg_def by (rule split_sign_bit)
  ultimately have "serialize (decoded c) [] = butlast c @ [last c]"
    using loop by simp
  with \<open>c \<noteq> []\<close> show ?thesis
    by simp
qed

text \<open>
  C2 amended: for every byte sequence \<open>b\<close> of at most \<open>sizeof(int64_t) = 8\<close> bytes that
  \<open>IsMinimallyEncoded\<close> accepts, serializing the integer that deserializing \<open>b\<close> gives
  reproduces \<open>b\<close>; the empty sequence, which \<open>deserialize\<close> refuses, stands for 0.
\<close>

theorem serialize_deserialize:
  "IsMinimallyEncoded b nMaxNumSize \<Longrightarrow> length b \<le> 8 \<Longrightarrow>
   (case deserialize_bidirectional b of None \<Rightarrow> serialize 0 [] | Some n \<Rightarrow> serialize n []) = b"
proof (cases "b = []")
  case True
  then show ?thesis
    by (simp add: deserialize_bidirectional_def serialize_def)
next
  case False
  moreover assume "IsMinimallyEncoded b nMaxNumSize" and "length b \<le> 8"
  ultimately show ?thesis
    by (simp add: deserialize_bidirectional_value IsMinimallyEncoded_shape serialize_decoded)
qed

theorem serialize_deserialize_witness:
  "IsMinimallyEncoded [0xff, 0x80] 4 \<and> deserialize_bidirectional [0xff, 0x80] = Some (- 255)
   \<and> serialize (- 255) [] = [0xff, 0x80]"
  using serialize_deserialize [of "[0xff, 0x80]" 4]
  by (simp add: IsMinimallyEncoded_def deserialize_bidirectional_value decoded_def)

text \<open>
  C2 as stated: the same for every sequence that \<open>IsMinimallyEncoded\<close> accepts under a
  generous limit. With the limit 9 the checker accepts the encoding of \<open>2 ^ 63\<close>, which
  \<open>int64_t\<close> cannot hold: it decodes to \<open>INT64_MIN\<close>, whose encoding ends in
  \<open>0x80\<close>, not in \<open>0x00\<close>.
\<close>

theorem serialize_deserialize_nine_bytes:
  "IsMinimallyEncoded [0, 0, 0, 0, 0, 0, 0, 0x80, 0x00] 9
   \<and> deserialize_bidirectional [0, 0, 0, 0, 0, 0, 0, 0x80, 0x00] = Some 0x8000000000000000
   \<and> serialize 0x8000000000000000 [] = [0, 0, 0, 0, 0, 0, 0, 0x80, 0x80]"
  by (simp add: IsMinimallyEncoded_def deserialize_bidirectional_value decoded_def
      serialize_def bsv_abs_def serialize_loop.simps word_sless_alt)

section \<open>The rewriter and the encoder\<close>

lemma MinimallyEncode_loop_snoc:
  "MinimallyEncode_loop (ys @ y # z # zs) lst (Suc (length ys)) =
     (if y \<noteq> 0 then
        (if y AND 0x80 \<noteq> 0 then (True, ys @ [y, lst]) else (True, ys @ [y OR lst]))
      else MinimallyEncode_loop (ys @ y # z # zs) lst (length ys))"
proof -
  have "(ys @ y # z # zs)[Suc (length ys) := lst] = (ys @ [y]) @ lst # zs"
    by (simp add: list_update_append)
  then have "resize ((ys @ y # z # zs)[Suc (length ys) := lst]) (Suc (Suc (length ys))) = ys @ [y, lst]"
    by (simp add: resize_def)
  moreover have "resize ((ys @ y # z # zs)[length ys := (ys @ y # z # zs) ! length ys OR lst])
      (Suc (length ys)) = ys @ [y OR lst]"
    by (simp add: resize_def list_update_append)
  ultimately show ?thesis
    by simp
qed

lemma le_value_zeros: "le_value (replicate n 0) 0 = 0"
  by (induction n) simp_all

lemma or_sign_and_0x7f: "lst AND 0x7f = 0 \<Longrightarrow> y AND 0x80 = 0 \<Longrightarrow> (y OR lst) AND 0x7f = (y :: byte)"
proof -
  assume "lst AND 0x7f = 0" and "y AND 0x80 = 0"
  then have "(y OR lst) AND 0x7f = y AND 0x7f"
    by (simp add: bit.conj_disj_distrib2)
  with \<open>y AND 0x80 = 0\<close> show ?thesis
    by (simp add: and_0x7f_id)
qed

lemma or_sign_and_0x80: "y AND 0x80 = 0 \<Longrightarrow> ((y OR lst) AND 0x80 \<noteq> 0) = (lst AND 0x80 \<noteq> (0 :: byte))"
  by (simp add: bit.conj_disj_distrib2)

lemma MinimallyEncode_loop_value:
  assumes "lst AND 0x7f = 0"
  shows "snd (MinimallyEncode_loop (xs @ replicate n 0 @ [lst]) lst (length xs)) = [] \<and>
           le_value xs 0 = 0
       \<or> minimal_shape (snd (MinimallyEncode_loop (xs @ replicate n 0 @ [lst]) lst (length xs))) \<and>
           length (snd (MinimallyEncode_loop (xs @ replicate n 0 @ [lst]) lst (length xs)))
             \<le> length xs + 1 \<and>
           decoded (snd (MinimallyEncode_loop (xs @ replicate n 0 @ [lst]) lst (length xs)))
             = (if lst AND 0x80 \<noteq> 0 then - le_value xs 0 else le_value xs 0)"
proof (induction xs arbitrary: n rule: rev_induct)
  case Nil
  show ?case by simp
next
  case (snoc y ys)
  obtain z zs where zs: "replicate n 0 @ [lst] = z # zs"
    by (cases "replicate n 0 @ [lst]") auto
  then have data: "(ys @ [y]) @ replicate n 0 @ [lst] = ys @ y # z # zs"
    by simp
  show ?case
  proof (cases "y = 0")
    case True
    define c where "c = snd (MinimallyEncode_loop (ys @ replicate (Suc n) 0 @ [lst]) lst (length ys))"
    have eq: "ys @ y # z # zs = ys @ replicate (Suc n) 0 @ [lst]"
      using zs True by (simp add: replicate_app_Cons_same)
    have step: "MinimallyEncode_loop (ys @ y # z # zs) lst (Suc (length ys))
        = MinimallyEncode_loop (ys @ y # z # zs) lst (length ys)"
      by (subst MinimallyEncode_loop_snoc) (simp add: True)
    have "snd (MinimallyEncode_loop ((ys @ [y]) @ replicate n 0 @ [lst]) lst
        (length (ys @ [y]))) = c"
      unfolding data c_def length_append_singleton step by (simp only: eq)
    moreover from True have "le_value (ys @ [y]) 0 = le_value ys 0"
      by (simp add: le_value_append)
    moreover note snoc.IH [of "Suc n", folded c_def]
    ultimately show ?thesis
      by auto
  next
    case False
    show ?thesis
    proof (cases "y AND 0x80 \<noteq> 0")
      case True
      with False have "snd (MinimallyEncode_loop ((ys @ [y]) @ replicate n 0 @ [lst]) lst
          (length (ys @ [y]))) = ys @ [y, lst]"
        unfolding data by (simp add: MinimallyEncode_loop_snoc del: MinimallyEncode_loop.simps)
      moreover have "minimal_shape (ys @ [y, lst])"
        using True by (simp add: minimal_shape_def nth_append)
      moreover have "decoded (ys @ [y, lst])
          = (if lst AND 0x80 \<noteq> 0 then - le_value (ys @ [y]) 0 else le_value (ys @ [y]) 0)"
        using assms by (simp add: decoded_def butlast_append)
      ultimately show ?thesis
        by simp
    next
      case False
      with \<open>y \<noteq> 0\<close> have "snd (MinimallyEncode_loop ((ys @ [y]) @ replicate n 0 @ [lst]) lst
          (length (ys @ [y]))) = ys @ [y OR lst]"
        unfolding data by (simp add: MinimallyEncode_loop_snoc del: MinimallyEncode_loop.simps)
      moreover have "minimal_shape (ys @ [y OR lst])"
        using False \<open>y \<noteq> 0\<close> assms by (simp add: minimal_shape_def or_sign_and_0x7f)
      moreover have "decoded (ys @ [y OR lst])
          = (if lst AND 0x80 \<noteq> 0 then - le_value (ys @ [y]) 0 else le_value (ys @ [y]) 0)"
        using assms False by (simp add: decoded_def or_sign_and_0x7f or_sign_and_0x80 le_value_append)
      ultimately show ?thesis
        by simp
    qed
  qed
qed

lemma decoded_trailing_zeros:
  "lst AND 0x7f = 0 \<Longrightarrow>
   decoded (xs @ replicate n 0 @ [lst])
     = (if lst AND 0x80 \<noteq> 0 then - le_value xs 0 else le_value xs 0)"
proof -
  assume "lst AND 0x7f = 0"
  moreover have "butlast (xs @ replicate n 0 @ [lst]) = xs @ replicate n 0"
    by (simp add: butlast_append)
  ultimately show ?thesis
    by (simp add: decoded_def le_value_append le_value_zeros)
qed

lemma MinimallyEncode_value:
  assumes "b \<noteq> []"
  shows "snd (MinimallyEncode b) = [] \<and> decoded b = 0
       \<or> minimal_shape (snd (MinimallyEncode b)) \<and>
           length (snd (MinimallyEncode b)) \<le> length b \<and>
           decoded (snd (MinimallyEncode b)) = decoded b"
proof -
  have len: "length b = 1 \<or> 2 \<le> length b"
    using assms by (cases b) (auto simp: Suc_le_eq)
  consider (low) "last b AND 0x7f \<noteq> 0"
    | (one) "last b AND 0x7f = 0" "length b = 1"
    | (sign) "last b AND 0x7f = 0" "2 \<le> length b" "b ! (length b - 2) AND 0x80 \<noteq> 0"
    | (trim) "last b AND 0x7f = 0" "2 \<le> length b" "b ! (length b - 2) AND 0x80 = 0"
    using len by blast
  then show ?thesis
  proof cases
    case low
    with assms show ?thesis
      by (simp add: MinimallyEncode_def minimal_shape_def)
  next
    case one
    then obtain x where "b = [x]"
      by (cases b) auto
    with one show ?thesis
      by (simp add: MinimallyEncode_def decoded_def)
  next
    case sign
    with assms show ?thesis
      by (simp add: MinimallyEncode_def minimal_shape_def)
  next
    case trim
    have b: "b = butlast b @ replicate 0 0 @ [last b]"
      using assms by simp
    have "snd (MinimallyEncode b) = snd (MinimallyEncode_loop b (last b) (length b - 1))"
      using trim assms by (simp add: MinimallyEncode_def)
    also have "\<dots> = snd (MinimallyEncode_loop (butlast b @ replicate 0 0 @ [last b]) (last b)
        (length (butlast b)))"
      using b by simp
    finally have eq: "snd (MinimallyEncode b)
        = snd (MinimallyEncode_loop (butlast b @ replicate 0 0 @ [last b]) (last b)
            (length (butlast b)))" .
    have "decoded b = (if last b AND 0x80 \<noteq> 0 then - le_value (butlast b) 0
        else le_value (butlast b) 0)"
      using decoded_trailing_zeros [OF trim(1), of "butlast b" 0] b by simp
    moreover have "length (butlast b) + 1 \<le> length b"
      using assms by simp
    moreover note MinimallyEncode_loop_value [OF trim(1), of "butlast b" 0, folded eq]
    ultimately show ?thesis
      by auto
  qed
qed

text \<open>
  C5: for every non-empty buffer \<open>b\<close> of at most \<open>sizeof(int64_t) = 8\<close> bytes, the buffer
  that \<open>MinimallyEncode\<close> leaves is what \<open>serialize\<close> emits for the integer that
  \<open>deserialize\<close> reads from \<open>b\<close>.
\<close>

theorem MinimallyEncode_canonical:
  "b \<noteq> [] \<Longrightarrow> length b \<le> 8 \<Longrightarrow>
   map_option (\<lambda>n. serialize n []) (deserialize_bidirectional b) = Some (snd (MinimallyEncode b))"
proof -
  assume b: "b \<noteq> []" "length b \<le> 8"
  from MinimallyEncode_value [OF b(1)] have "serialize (decoded b) [] = snd (MinimallyEncode b)"
  proof
    assume "snd (MinimallyEncode b) = [] \<and> decoded b = 0"
    then show ?thesis
      by (simp add: serialize_def)
  next
    assume c: "minimal_shape (snd (MinimallyEncode b)) \<and>
      length (snd (MinimallyEncode b)) \<le> length b \<and>
      decoded (snd (MinimallyEncode b)) = decoded b"
    with b(2) have "serialize (decoded (snd (MinimallyEncode b))) [] = snd (MinimallyEncode b)"
      by (intro serialize_decoded) simp_all
    with c show ?thesis
      by simp
  qed
  with b(1) show ?thesis
    by (simp add: deserialize_bidirectional_value)
qed

theorem MinimallyEncode_canonical_witness:
  "snd (MinimallyEncode [0x05, 0x00, 0x80]) = [0x85]
   \<and> deserialize_bidirectional [0x05, 0x00, 0x80] = Some (- 5)
   \<and> serialize (- 5) [] = [0x85]"
  using MinimallyEncode_canonical [of "[0x05, 0x00, 0x80]"]
  by (simp add: MinimallyEncode_def resize_def deserialize_bidirectional_value decoded_def)

end
